theory Spec2Isabelle
  imports Main "HOL-Library.Char_ord" "HOL-Library.List_Lexorder" "HOL-Library.AList"
begin

section \<open>Python strings\<close>

text \<open>
  Strings are lists of 8-bit characters. The string functions the program uses are
  written out for ASCII text: \<open>str.lower\<close> maps \<open>A..Z\<close> to \<open>a..z\<close>, \<open>str.strip\<close>
  removes the ASCII white space characters (codes 9 to 13 and 28 to 32) from both ends.
\<close>

definition py_isspace :: "char \<Rightarrow> bool" where
  "py_isspace c =
     (let n = (of_char c :: nat) in (9 \<le> n \<and> n \<le> 13) \<or> (28 \<le> n \<and> n \<le> 32))"

definition lower_char :: "char \<Rightarrow> char" where
  "lower_char c =
     (let n = (of_char c :: nat) in if 65 \<le> n \<and> n \<le> 90 then char_of (n + 32) else c)"


definition py_lower :: "string \<Rightarrow> string" where
  "py_lower s = map lower_char s"


definition py_strip :: "string \<Rightarrow> string" where
  "py_strip s = rev (dropWhile py_isspace (rev (dropWhile py_isspace s)))"

definition startswith :: "string \<Rightarrow> string \<Rightarrow> bool" where
  "startswith s p = (take (length p) s = p)"

text \<open>
  \<open>s.replace(old, new)\<close>: every occurrence of \<open>old\<close>, found from the left without
  overlaps, is replaced. With an empty \<open>old\<close> Python inserts \<open>new\<close> around every character.
\<close>

fun py_replace :: "string \<Rightarrow> string \<Rightarrow> string \<Rightarrow> string" where
  "py_replace [] new s = new @ concat (map (\<lambda>c. c # new) s)"
| "py_replace (x # xs) new [] = []"
| "py_replace (x # xs) new (c # cs) =
     (if startswith (c # cs) (x # xs)
      then new @ py_replace (x # xs) new (drop (length xs) cs)
      else c # py_replace (x # xs) new cs)"


section \<open>Identity normalisation (yonex\_site\_checker.normalize\_image\_url)\<close>

definition normalize_image_url :: "string \<Rightarrow> string" where
  "normalize_image_url url =
     (if url = [] then []
      else
        let u1 =
              (if startswith url ''https://www.yonex.ch''
                 then py_replace ''https://www.yonex.ch'' [] url
               else if startswith url ''http://www.yonex.ch''
                 then py_replace ''http://www.yonex.ch'' [] url
               else if startswith url ''//www.yonex.ch''
                 then py_replace ''//www.yonex.ch'' [] url
               else url);
            u2 = (if \<not> startswith u1 ''/'' then ''/'' @ u1 else u1)
        in py_strip (py_lower u2))"

section \<open>Size analysis (talk\_to\_ai)\<close>

text \<open>
  The dictionary a size analysis returns, seen through the three keys the program reads.
  A key that is absent is \<open>None\<close>; \<open>sizes.get("available", [])\<close> is \<open>get_list\<close>.
  The lists hold size tokens as strings, as the prompt asks the model to send them.
\<close>

record size_info =
  available :: "string list option"
  sold_out :: "string list option"
  error :: "string option"

definition get_list :: "string list option \<Rightarrow> string list" where
  "get_list v = (case v of None \<Rightarrow> [] | Some xs \<Rightarrow> xs)"

text \<open>The literal \<open>{"available": [], "sold_out": [], "error": msg}\<close>.\<close>

definition failure :: "string \<Rightarrow> size_info" where
  "failure msg = \<lparr>available = Some [], sold_out = Some [], error = Some msg\<rparr>"




fun py_join :: "string \<Rightarrow> string list \<Rightarrow> string" where
  "py_join sep [] = []"
| "py_join sep [l] = l"
| "py_join sep (l # m # ls) = l @ sep @ py_join sep (m # ls)"



















section \<open>Change detection (yonex\_site\_checker)\<close>

text \<open>
  A catalogue entry as the scraper stores it and as the history file holds it. The key
  \<open>original_description\<close> may be missing in a history file (the program reads it with
  a default); \<open>sizes\<close> is \<open>None\<close> until an analysis is stored, then a JSON text.
  A snapshot is a dictionary from the normalised image reference to the entry, kept as
  an association list in insertion order.
\<close>

record product =
  name :: string
  image_url :: string
  description :: string
  original_description :: "string option"
  price :: string
  sizes :: "string option"

type_synonym snapshot = "(string \<times> product) list"

record size_changes =
  old_sizes :: size_info
  new_sizes :: size_info
  newly_available :: "string list"
  newly_sold_out :: "string list"
  no_longer_available :: "string list"
  no_longer_sold_out :: "string list"
  has_size_changes :: bool

record modification =
  mod_image_url :: string
  old :: product
  new :: product
  size_analysis :: "size_changes option"

record changes =
  removed :: "product list"
  added :: "product list"
  modified :: "modification list"
  total_current :: nat
  total_previous :: nat
  current_products :: snapshot

datatype py_exception = KeyError string | ScrapeError string | JSONDecodeError string | OSError

text \<open>
  Two things come from outside the module. The order in which Python walks a set, and
  in which \<open>list(s)\<close> lists it, is the parameter \<open>order\<close>; Python promises only that
  every element comes once (\<open>set_order_ok\<close>). The size analysis is the parameter
  \<open>analyze\<close>: its answer may depend on the calls made before, whose descriptions are the
  first argument; the functions below return the descriptions they passed to it, in
  the order of the calls.
\<close>

type_synonym set_order = "string set \<Rightarrow> string list"

type_synonym analyzer = "string list \<Rightarrow> string \<Rightarrow> size_info"

definition set_order_ok :: "set_order \<Rightarrow> bool" where
  "set_order_ok order = (\<forall>S. finite S \<longrightarrow> set (order S) = S \<and> distinct (order S))"

definition analyze_size_changes ::
  "set_order \<Rightarrow> analyzer \<Rightarrow> string list \<Rightarrow> string \<Rightarrow> string \<Rightarrow> size_changes \<times> string list"
where
  "analyze_size_changes order analyze calls old_description new_description =
     (let old_sizes = analyze calls old_description;
          new_sizes = analyze (calls @ [old_description]) new_description;
          old_available = set (get_list (available old_sizes));
          new_available = set (get_list (available new_sizes));
          old_sold_out = set (get_list (sold_out old_sizes));
          new_sold_out = set (get_list (sold_out new_sizes));
          newly_available = new_available - old_available;
          newly_sold_out = new_sold_out - old_sold_out;
          no_longer_available = old_available - new_available;
          no_longer_sold_out = old_sold_out - new_sold_out
      in (\<lparr>old_sizes = old_sizes,
           new_sizes = new_sizes,
           newly_available = order newly_available,
           newly_sold_out = order newly_sold_out,
           no_longer_available = order no_longer_available,
           no_longer_sold_out = order no_longer_sold_out,
           has_size_changes =
             (newly_available \<noteq> {} \<or> newly_sold_out \<noteq> {}
              \<or> no_longer_available \<noteq> {} \<or> no_longer_sold_out \<noteq> {})\<rparr>,
          calls @ [old_description, new_description]))"

text \<open>\<open>p.get('original_description', p['description'])\<close>.\<close>

definition description_for_sizes :: "product \<Rightarrow> string" where
  "description_for_sizes p =
     (case original_description p of Some d \<Rightarrow> d | None \<Rightarrow> description p)"

text \<open>
  The loop over the common keys. Its state is the current snapshot, which the loop
  updates, the modifications found and the analysis calls made. The entry stored under
  \<open>'new'\<close> is the object that is in the snapshot, so it shows the sizes stored there.
\<close>

type_synonym 'a loop_state = "snapshot \<times> 'a list \<times> string list"

fun modified_loop ::
  "set_order \<Rightarrow> analyzer \<Rightarrow> (size_info \<Rightarrow> string) \<Rightarrow> snapshot \<Rightarrow> string list \<Rightarrow>
   modification loop_state \<Rightarrow> py_exception + modification loop_state"
where
  "modified_loop order analyze dumps previous_products [] st = Inr st"
| "modified_loop order analyze dumps previous_products (k # ks)
     (current_prods, modified_products, calls) =
     (case map_of current_prods k of
        None \<Rightarrow> Inl (KeyError k)
      | Some current \<Rightarrow>
          (case map_of previous_products k of
             None \<Rightarrow> Inl (KeyError k)
           | Some previous \<Rightarrow>
               if name current \<noteq> name previous
                  \<or> description current \<noteq> description previous
                  \<or> price current \<noteq> price previous
               then
                 (if description current \<noteq> description previous
                  then
                    (let old_desc = description_for_sizes previous;
                         new_desc = description_for_sizes current;
                         (sa, calls') =
                            analyze_size_changes order analyze calls old_desc new_desc;
                         current' = current\<lparr>sizes := Some (dumps (new_sizes sa))\<rparr>
                     in modified_loop order analyze dumps previous_products ks
                          (AList.update k current' current_prods,
                           modified_products @
                             [\<lparr>mod_image_url = k, old = previous, new = current',
                               size_analysis = Some sa\<rparr>],
                           calls'))
                  else
                    modified_loop order analyze dumps previous_products ks
                      (current_prods,
                       modified_products @
                         [\<lparr>mod_image_url = k, old = previous, new = current,
                           size_analysis = None\<rparr>],
                       calls))
               else
                 modified_loop order analyze dumps previous_products ks
                   (current_prods, modified_products, calls)))"

text \<open>The loop over the added keys; \<open>{"available": [], "sold_out": []}\<close> is \<open>no_sizes\<close>.\<close>

definition no_sizes :: size_info where
  "no_sizes = \<lparr>available = Some [], sold_out = Some [], error = None\<rparr>"

definition has_original_description :: "product \<Rightarrow> bool" where
  "has_original_description p =
     (case original_description p of Some d \<Rightarrow> d \<noteq> [] | None \<Rightarrow> False)"

definition get_original_description :: "product \<Rightarrow> string" where
  "get_original_description p = (case original_description p of Some d \<Rightarrow> d | None \<Rightarrow> [])"

fun added_loop ::
  "analyzer \<Rightarrow> (size_info \<Rightarrow> string) \<Rightarrow> string list \<Rightarrow>
   product loop_state \<Rightarrow> py_exception + product loop_state"
where
  "added_loop analyze dumps [] st = Inr st"
| "added_loop analyze dumps (img # imgs) (current_prods, added_products_list, calls) =
     (case map_of current_prods img of
        None \<Rightarrow> Inl (KeyError img)
      | Some p \<Rightarrow>
          (let (sizes_json, calls') =
                 (if has_original_description p
                  then (dumps (analyze calls (get_original_description p)),
                        calls @ [get_original_description p])
                  else (dumps no_sizes, calls));
               product = p\<lparr>sizes := Some sizes_json\<rparr>
           in added_loop analyze dumps imgs
                (AList.update img (p\<lparr>sizes := Some sizes_json\<rparr>) current_prods,
                 added_products_list @ [product],
                 calls')))"

text \<open>\<open>[previous_products[img] for img in removed_images]\<close>.\<close>

fun removed_list :: "snapshot \<Rightarrow> string list \<Rightarrow> py_exception + product list" where
  "removed_list previous_products [] = Inr []"
| "removed_list previous_products (img # imgs) =
     (case map_of previous_products img of
        None \<Rightarrow> Inl (KeyError img)
      | Some p \<Rightarrow>
          (case removed_list previous_products imgs of
             Inl e \<Rightarrow> Inl e
           | Inr ps \<Rightarrow> Inr (p # ps)))"

text \<open>
  The comparison of two snapshots in \<open>analyze_product_changes\<close>, from the key sets to
  the dictionary \<open>changes\<close>, with the analysis calls it made.
\<close>

definition detect_changes ::
  "set_order \<Rightarrow> analyzer \<Rightarrow> (size_info \<Rightarrow> string) \<Rightarrow> snapshot \<Rightarrow> snapshot \<Rightarrow>
   py_exception + changes \<times> string list"
where
  "detect_changes order analyze dumps previous_products current_prods =
     (let current_images = set (map fst current_prods);
          previous_images = set (map fst previous_products);
          removed_images = previous_images - current_images;
          added_images = current_images - previous_images;
          common_images = current_images \<inter> previous_images
      in case modified_loop order analyze dumps previous_products (order common_images)
                (current_prods, [], []) of
           Inl e \<Rightarrow> Inl e
         | Inr (current1, modified_products, calls1) \<Rightarrow>
             (case added_loop analyze dumps (order added_images) (current1, [], calls1) of
                Inl e \<Rightarrow> Inl e
              | Inr (current2, added_products_list, calls2) \<Rightarrow>
                  (case removed_list previous_products (order removed_images) of
                     Inl e \<Rightarrow> Inl e
                   | Inr removed_products \<Rightarrow>
                       Inr (\<lparr>removed = removed_products,
                             added = added_products_list,
                             modified = modified_products,
                             total_current = length current2,
                             total_previous = length previous_products,
                             current_products = current2\<rparr>,
                            calls2))))"

text \<open>
  Saving the state: \<open>open(history_file, 'w')\<close> creates the file or cuts it to length
  zero, then \<open>json.dump\<close> writes the text. A write can fail (a full disk, a fault of the
  device): \<open>limit = Some n\<close> says that the file takes \<open>n\<close> characters and no more.
  \<open>dump\<close> is the text \<open>json.dump\<close> produces.
\<close>

definition open_for_writing :: "string option \<Rightarrow> string" where
  "open_for_writing file = []"

definition write_text :: "nat option \<Rightarrow> string \<Rightarrow> string \<Rightarrow> (py_exception + unit) \<times> string" where
  "write_text limit content text =
     (case limit of
        None \<Rightarrow> (Inr (), content @ text)
      | Some n \<Rightarrow>
          if n < length text then (Inl OSError, content @ take n text)
          else (Inr (), content @ text))"

definition save_history ::
  "(snapshot \<Rightarrow> string) \<Rightarrow> nat option \<Rightarrow> string option \<Rightarrow> snapshot \<Rightarrow>
   (py_exception + unit) \<times> string option"
where
  "save_history dump limit history_file current_prods =
     (let f = open_for_writing history_file;
          (r, content) = write_text limit f (dump current_prods)
      in (r, Some content))"

definition no_changes :: changes where
  "no_changes =
     \<lparr>removed = [], added = [], modified = [], total_current = 0, total_previous = 0,
      current_products = []\<rparr>"

text \<open>
  \<open>analyze_product_changes\<close>: \<open>scraped\<close> is what \<open>get_products_with_image_ids\<close> returned
  or raised, \<open>history_file\<close> the content of the history file if it exists, \<open>load\<close> is
  \<open>json.load\<close>. Every exception ends in the handler, which returns \<open>no_changes\<close>. The
  result is the dictionary returned and the history file afterwards.
\<close>

definition analyze_product_changes ::
  "set_order \<Rightarrow> analyzer \<Rightarrow> (size_info \<Rightarrow> string) \<Rightarrow> (string \<Rightarrow> py_exception + snapshot) \<Rightarrow>
   (snapshot \<Rightarrow> string) \<Rightarrow> nat option \<Rightarrow> py_exception + snapshot \<Rightarrow> string option \<Rightarrow>
   changes \<times> string option"
where
  "analyze_product_changes order analyze dumps load dump limit scraped history_file =
     (case scraped of
        Inl e \<Rightarrow> (no_changes, history_file)
      | Inr current_prods \<Rightarrow>
          (case (case history_file of None \<Rightarrow> Inr [] | Some text \<Rightarrow> load text) of
             Inl e \<Rightarrow> (no_changes, history_file)
           | Inr previous_products \<Rightarrow>
               (case detect_changes order analyze dumps previous_products current_prods of
                  Inl e \<Rightarrow> (no_changes, history_file)
                | Inr (changes, calls) \<Rightarrow>
                    (case save_history dump limit history_file (current_products changes) of
                       (Inl e, file') \<Rightarrow> (no_changes, file')
                     | (Inr u, file') \<Rightarrow> (changes, file')))))"

section \<open>Notions used in the results about change detection\<close>

text \<open>
  For a key of both snapshots: whether one of the three compared fields differs, and
  the descriptions the comparison passes to the size analysis for it. For an added
  key: the description passed for it, if any. \<open>erase_sizes\<close> forgets the stored sizes,
  the one field the comparison writes.
\<close>

definition entry_changed :: "snapshot \<Rightarrow> snapshot \<Rightarrow> string \<Rightarrow> bool" where
  "entry_changed previous_products current_prods k =
     (case (map_of previous_products k, map_of current_prods k) of
        (Some previous, Some current) \<Rightarrow>
          name current \<noteq> name previous \<or> description current \<noteq> description previous
          \<or> price current \<noteq> price previous
      | _ \<Rightarrow> False)"

definition common_calls :: "snapshot \<Rightarrow> snapshot \<Rightarrow> string \<Rightarrow> string list" where
  "common_calls previous_products current_prods k =
     (case (map_of previous_products k, map_of current_prods k) of
        (Some previous, Some current) \<Rightarrow>
          if description current \<noteq> description previous
          then [description_for_sizes previous, description_for_sizes current]
          else []
      | _ \<Rightarrow> [])"

definition added_calls :: "snapshot \<Rightarrow> string \<Rightarrow> string list" where
  "added_calls current_prods k =
     (case map_of current_prods k of
        Some p \<Rightarrow> if has_original_description p then [get_original_description p] else []
      | None \<Rightarrow> [])"

definition erase_sizes :: "product \<Rightarrow> product" where
  "erase_sizes p = p\<lparr>sizes := None\<rparr>"

text \<open>
  One pass of the loop over the common keys, for the entries found under the key, and
  what the loops establish for a modification and for an added entry. They serve the
  proofs below.
\<close>

definition modified_step ::
  "set_order \<Rightarrow> analyzer \<Rightarrow> (size_info \<Rightarrow> string) \<Rightarrow> product \<Rightarrow> product \<Rightarrow> string \<Rightarrow>
   modification loop_state \<Rightarrow> modification loop_state"
where
  "modified_step order analyze dumps previous current k st =
     (case st of (current_prods, modified_products, calls) \<Rightarrow>
        if name current \<noteq> name previous
           \<or> description current \<noteq> description previous
           \<or> price current \<noteq> price previous
        then
          (if description current \<noteq> description previous
           then
             (let sa = fst (analyze_size_changes order analyze calls
                        (description_for_sizes previous) (description_for_sizes current));
                  current' = current\<lparr>sizes := Some (dumps (new_sizes sa))\<rparr>
              in (AList.update k current' current_prods,
                  modified_products @
                    [\<lparr>mod_image_url = k, old = previous, new = current',
                      size_analysis = Some sa\<rparr>],
                  calls @ [description_for_sizes previous, description_for_sizes current]))
           else
             (current_prods,
              modified_products @
                [\<lparr>mod_image_url = k, old = previous, new = current, size_analysis = None\<rparr>],
              calls))
        else st)"

definition mod_ok ::
  "set_order \<Rightarrow> analyzer \<Rightarrow> (size_info \<Rightarrow> string) \<Rightarrow> snapshot \<Rightarrow> snapshot \<Rightarrow> modification \<Rightarrow> bool"
where
  "mod_ok order analyze dumps prev cur m =
     (\<exists>p c. map_of prev (mod_image_url m) = Some p \<and> map_of cur (mod_image_url m) = Some c
        \<and> old m = p
        \<and> (name c \<noteq> name p \<or> description c \<noteq> description p \<or> price c \<noteq> price p)
        \<and> (if description c \<noteq> description p
            then (\<exists>cs sa. sa = fst (analyze_size_changes order analyze cs
                                 (description_for_sizes p) (description_for_sizes c))
                    \<and> size_analysis m = Some sa
                    \<and> new m = c\<lparr>sizes := Some (dumps (new_sizes sa))\<rparr>)
            else size_analysis m = None \<and> new m = c))"

definition added_ok :: "analyzer \<Rightarrow> (size_info \<Rightarrow> string) \<Rightarrow> snapshot \<Rightarrow> string \<Rightarrow> product \<Rightarrow> bool" where
  "added_ok analyze dumps cur k p =
     (\<exists>c. map_of cur k = Some c
        \<and> (if has_original_description c
            then (\<exists>cs. p = c\<lparr>sizes := Some (dumps (analyze cs (get_original_description c)))\<rparr>)
            else p = c\<lparr>sizes := Some (dumps no_sizes)\<rparr>))"

section \<open>Reports (yonex\_site\_checker)\<close>













subsection \<open>The notification\<close>






subsection \<open>The log\<close>






subsection \<open>One formatter with the widths of the rules as parameters\<close>





section \<open>The product table (products\_into\_db)\<close>

text \<open>
  A row of the table \<open>products\<close>. Each category has its own database file, named after
  the category; \<open>None\<close> is a file that does not exist yet. \<open>now\<close> is the value of
  \<open>CURRENT_TIMESTAMP\<close> when a row is inserted. Faults of the database itself are not
  part of this model.
\<close>

record db_row =
  row_id :: nat
  row_name :: string
  pic_url :: string
  row_description :: string
  row_price :: string
  row_sizes :: string
  row_type :: string
  last_seen :: string

type_synonym databases = "string \<Rightarrow> db_row list option"

text \<open>\<open>init_db\<close>: \<open>CREATE TABLE IF NOT EXISTS\<close>.\<close>

definition init_db :: "string \<Rightarrow> databases \<Rightarrow> databases" where
  "init_db category dbs =
     (case dbs category of None \<Rightarrow> dbs(category \<mapsto> []) | Some rows \<Rightarrow> dbs)"

text \<open>
  An \<open>INTEGER PRIMARY KEY\<close> that is not given is one more than the largest in the
  table, and 1 in an empty table.
\<close>

definition next_row_id :: "db_row list \<Rightarrow> nat" where
  "next_row_id rows = (if rows = [] then 1 else Suc (fold max (map row_id rows) 0))"

definition pending_sizes_json :: string where
  \<open>pending_sizes_json = ''{"available": [], "sold_out": [], "note": "Size analysis pending"}''\<close>

definition insert_product :: "string \<Rightarrow> string \<Rightarrow> db_row list \<Rightarrow> string \<times> product \<Rightarrow> db_row list" where
  "insert_product now category_name rows item =
     (case item of (image_key, product_data) \<Rightarrow>
        (let description = description_for_sizes product_data;
             sizes_json =
               (case sizes product_data of
                  Some s \<Rightarrow> if s \<noteq> [] then s else pending_sizes_json
                | None \<Rightarrow> pending_sizes_json)
         in rows @
            [\<lparr>row_id = next_row_id rows,
              row_name = name product_data,
              pic_url = image_key,
              row_description = description,
              row_price = price product_data,
              row_sizes = sizes_json,
              row_type = category_name,
              last_seen = now\<rparr>]))"

definition store_products_from_dict :: "string \<Rightarrow> snapshot \<Rightarrow> string \<Rightarrow> databases \<Rightarrow> databases" where
  "store_products_from_dict now products_dict category_name dbs =
     (if products_dict = [] then dbs
      else
        (let dbs1 = init_db category_name dbs;
             rows = (case dbs1 category_name of None \<Rightarrow> [] | Some rs \<Rightarrow> rs);
             kept = filter (\<lambda>r. row_type r \<noteq> category_name) rows;
             rows' = foldl (insert_product now category_name) kept products_dict
         in dbs1(category_name \<mapsto> rows')))"

section \<open>The specification's reading of the JSON recovery\<close>



section \<open>Example data\<close>






text \<open>A table with one row of shoes.\<close>

definition shoe_row :: db_row where
  "shoe_row =
     \<lparr>row_id = 1, row_name = ''power cushion 65'', pic_url = ''/img/shb65.jpg'',
      row_description = ''36-42'', row_price = ''chf 159.00'', row_sizes = ''{}'',
      row_type = ''schuhe'', last_seen = ''2024-01-01 10:00:00''\<rparr>"

definition shoe_tables :: databases where
  "shoe_tables = Map.empty(''schuhe'' \<mapsto> [shoe_row])"

text \<open>
  Two orders in which a set of keys may be walked, ascending and descending; a plain
  \<open>json.dumps\<close> for size dictionaries whose strings need no escaping; an analysis that
  knows two descriptions; and snapshots: one shoe whose description changes, one whose
  price changes, and one that is new.
\<close>

definition order_sorted :: set_order where
  "order_sorted S = sorted_list_of_set S"

definition order_reversed :: set_order where
  "order_reversed S = rev (sorted_list_of_set S)"

definition json_string_list :: "string list \<Rightarrow> string" where
  "json_string_list xs =
     ''['' @ py_join '', '' (map (\<lambda>x. [CHR 0x22] @ x @ [CHR 0x22]) xs) @ '']''"

definition dumps_plain :: "size_info \<Rightarrow> string" where
  \<open>dumps_plain s =
     ''{"available": '' @ json_string_list (get_list (available s))
     @ '', "sold_out": '' @ json_string_list (get_list (sold_out s))
     @ (case error s of None \<Rightarrow> [] | Some e \<Rightarrow> '', "error": '' @ [CHR 0x22] @ e @ [CHR 0x22])
     @ ''}''\<close>

definition analyzer_example :: analyzer where
  "analyzer_example calls d =
     (if d = ''40, 41 (=komplett)''
      then \<lparr>available = Some [''40'', ''41''], sold_out = Some [], error = None\<rparr>
      else if d = ''40, 41 (=nur ausverkauft in 41)''
      then \<lparr>available = Some [''40''], sold_out = Some [''41''], error = None\<rparr>
      else failure ''No description provided'')"

definition eclipsion_old :: product where
  "eclipsion_old =
     \<lparr>name = ''eclipsion z'', image_url = ''/img/ecl.jpg'',
      description = ''40, 41 (=komplett)'',
      original_description = Some ''40, 41 (=komplett)'',
      price = ''chf 189.00'', sizes = None\<rparr>"

definition eclipsion_new :: product where
  "eclipsion_new =
     \<lparr>name = ''eclipsion z'', image_url = ''/img/ecl.jpg'',
      description = ''40, 41 (=nur ausverkauft in 41)'',
      original_description = Some ''40, 41 (=nur ausverkauft in 41)'',
      price = ''chf 189.00'', sizes = None\<rparr>"

definition cushion_old :: product where
  "cushion_old =
     \<lparr>name = ''power cushion 65'', image_url = ''/img/shb65.jpg'', description = [],
      original_description = Some [], price = ''chf 159.00'', sizes = None\<rparr>"

definition cushion_new :: product where
  "cushion_new =
     \<lparr>name = ''power cushion 65'', image_url = ''/img/shb65.jpg'', description = [],
      original_description = Some [], price = ''chf 149.00'', sizes = None\<rparr>"

definition aerus :: product where
  "aerus =
     \<lparr>name = ''aerus z'', image_url = ''/img/aerus.jpg'', description = [],
      original_description = Some [], price = ''chf 199.00'', sizes = None\<rparr>"

definition previous_example :: snapshot where
  "previous_example = [(''/img/shb65.jpg'', cushion_old), (''/img/ecl.jpg'', eclipsion_old)]"

definition current_example :: snapshot where
  "current_example = [(''/img/shb65.jpg'', cushion_new), (''/img/ecl.jpg'', eclipsion_new)]"

definition arrivals_example :: snapshot where
  "arrivals_example = [(''/img/aerus.jpg'', aerus), (''/img/shb65.jpg'', cushion_new)]"


definition dump_keys :: "snapshot \<Rightarrow> string" where
  "dump_keys s =
     ''{'' @ py_join '', '' (map (\<lambda>kv. [CHR 0x22] @ fst kv @ [CHR 0x22] @ '': {}'') s) @ ''}''"



section \<open>Lemmas about lists\<close>


lemma drop_find: "drop (length (takeWhile P xs)) xs = dropWhile P xs"
  by (induction xs) auto





section \<open>Results about identity normalisation\<close>

lemma of_char_lower_bound:
  "65 \<le> (of_char c :: nat) \<Longrightarrow> of_char c \<le> (90::nat) \<Longrightarrow>
   of_char (char_of (of_char c + 32 :: nat)) = (of_char c + 32 :: nat)"
  by (simp add: of_char_of)

lemma lower_char_idem: "lower_char (lower_char c) = lower_char c"
proof (cases "65 \<le> (of_char c :: nat) \<and> of_char c \<le> (90::nat)")
  case True
  then have "of_char (lower_char c) = (of_char c + 32 :: nat)"
    by (simp add: lower_char_def Let_def of_char_lower_bound)
  then show ?thesis using True by (simp add: lower_char_def Let_def)
next
  case False
  then show ?thesis by (auto simp: lower_char_def Let_def)
qed

lemma py_lower_idem: "py_lower (py_lower s) = py_lower s"
  by (simp add: py_lower_def lower_char_idem)

lemma lower_char_space: "py_isspace (lower_char c) = py_isspace c"
proof (cases "65 \<le> (of_char c :: nat) \<and> of_char c \<le> (90::nat)")
  case True
  then have "of_char (lower_char c) = (of_char c + 32 :: nat)"
    by (simp add: lower_char_def Let_def of_char_lower_bound)
  then show ?thesis using True by (simp add: py_isspace_def Let_def)
next
  case False
  then show ?thesis by (auto simp: lower_char_def Let_def)
qed

lemma dropWhile_idem: "dropWhile P (dropWhile P xs) = dropWhile P xs"
  by (induction xs) auto

lemma strip_hd: "py_strip s \<noteq> [] \<Longrightarrow> \<not> py_isspace (hd (py_strip s))"
proof -
  assume n: "py_strip s \<noteq> []"
  let ?a = "dropWhile py_isspace s"
  let ?b = "dropWhile py_isspace (rev ?a)"
  have b: "?b \<noteq> []" using n by (simp add: py_strip_def)
  have ane: "?a \<noteq> []"
  proof
    assume a0: "?a = []"
    have "?b = []" unfolding a0 by simp
    with b show False by simp
  qed
  have "hd (rev ?b) = hd ?a"
  proof -
    obtain n where "?b = drop n (rev ?a)"
      by (metis drop_find)
    then have "rev ?b = take (length ?a - n) ?a" by (simp add: rev_drop)
    moreover have "length ?a - n \<noteq> 0" using b \<open>?b = drop n (rev ?a)\<close> by auto
    ultimately show ?thesis by (metis hd_take gr0I)
  qed
  moreover have "\<not> py_isspace (hd ?a)" using ane by (rule hd_dropWhile)
  ultimately show ?thesis by (simp add: py_strip_def)
qed

lemma strip_last: "py_strip s \<noteq> [] \<Longrightarrow> \<not> py_isspace (last (py_strip s))"
proof -
  assume n: "py_strip s \<noteq> []"
  let ?b = "dropWhile py_isspace (rev (dropWhile py_isspace s))"
  have b: "?b \<noteq> []" using n by (simp add: py_strip_def)
  then have "\<not> py_isspace (hd ?b)" by (rule hd_dropWhile)
  moreover have "last (rev ?b) = hd ?b" using b by (simp add: last_rev)
  ultimately show ?thesis by (simp add: py_strip_def)
qed

lemma dropWhile_hd_id: "xs \<noteq> [] \<Longrightarrow> \<not> P (hd xs) \<Longrightarrow> dropWhile P xs = xs"
  by (cases xs) auto

lemma py_strip_id:
  assumes "s \<noteq> []" "\<not> py_isspace (hd s)" "\<not> py_isspace (last s)"
  shows "py_strip s = s"
proof -
  have 1: "dropWhile py_isspace s = s" using assms by (simp add: dropWhile_hd_id)
  have "rev s \<noteq> []" "\<not> py_isspace (hd (rev s))" using assms by (simp_all add: hd_rev)
  then have 2: "dropWhile py_isspace (rev s) = rev s" by (rule dropWhile_hd_id)
  show ?thesis by (simp add: py_strip_def 1 2)
qed

lemma py_strip_idem: "py_strip (py_strip s) = py_strip s"
proof (cases "py_strip s = []")
  case True
  have "py_strip [] = []" by (simp add: py_strip_def)
  then show ?thesis unfolding True .
next
  case False
  then show ?thesis by (intro py_strip_id strip_hd strip_last)
qed

lemma py_lower_strip: "py_lower (py_strip s) = py_strip (py_lower s)"
  by (simp add: py_lower_def py_strip_def rev_map dropWhile_map comp_def lower_char_space)

lemma py_strip_Cons:
  assumes "\<not> py_isspace c"
  shows "\<exists>t'. py_strip (c # t) = c # t'"
proof -
  have 1: "dropWhile py_isspace (c # t) = c # t" using assms by simp
  have "\<exists>ys. dropWhile py_isspace (rev t @ [c]) = ys @ [c]"
  proof (cases "\<forall>x\<in>set (rev t). py_isspace x")
    case True
    then have "dropWhile py_isspace (rev t @ [c]) = dropWhile py_isspace [c]"
      by (intro dropWhile_append2) auto
    then show ?thesis using assms by simp
  next
    case False
    then obtain x where "x \<in> set (rev t)" "\<not> py_isspace x" by blast
    then have "dropWhile py_isspace (rev t @ [c]) = dropWhile py_isspace (rev t) @ [c]"
      by (rule dropWhile_append1)
    then show ?thesis by blast
  qed
  then obtain ys where "dropWhile py_isspace (rev t @ [c]) = ys @ [c]" by blast
  then have "py_strip (c # t) = c # rev ys"
    unfolding py_strip_def 1 by simp
  then show ?thesis by blast
qed

lemma lower_slash: "lower_char CHR ''/'' = CHR ''/''"
  by code_simp

lemma slash_not_space: "\<not> py_isspace CHR ''/''"
  by code_simp

lemma startswith_slash: "startswith s ''/'' \<longleftrightarrow> (\<exists>t. s = CHR ''/'' # t)"
  by (cases s) (auto simp: startswith_def)

text \<open>
  Apart from the empty string, a normalised identity begins with a slash, and the
  second pass can only change it by removing the prefix \<open>//www.yonex.ch\<close>.
\<close>

lemma normalize_image_url_slash:
  "x \<noteq> [] \<Longrightarrow> \<exists>t. normalize_image_url x = CHR ''/'' # t"
proof -
  assume x: "x \<noteq> []"
  define u1 where "u1 =
              (if startswith x ''https://www.yonex.ch''
                 then py_replace ''https://www.yonex.ch'' [] x
               else if startswith x ''http://www.yonex.ch''
                 then py_replace ''http://www.yonex.ch'' [] x
               else if startswith x ''//www.yonex.ch''
                 then py_replace ''//www.yonex.ch'' [] x
               else x)"
  define u2 where "u2 = (if \<not> startswith u1 ''/'' then ''/'' @ u1 else u1)"
  have n: "normalize_image_url x = py_strip (py_lower u2)"
    using x by (simp add: normalize_image_url_def u1_def u2_def Let_def)
  have "\<exists>t. u2 = CHR ''/'' # t"
    unfolding u2_def by (auto simp: startswith_slash)
  then obtain t where "u2 = CHR ''/'' # t" by blast
  then have "py_lower u2 = CHR ''/'' # py_lower t"
    by (simp add: py_lower_def lower_slash)
  with py_strip_Cons[OF slash_not_space, of "py_lower t"] n show ?thesis by simp
qed

lemma normalize_image_url_stable:
  assumes "\<not> startswith (normalize_image_url x) ''//www.yonex.ch''"
  shows "normalize_image_url (normalize_image_url x) = normalize_image_url x"
proof (cases "x = []")
  case True
  then show ?thesis by (simp add: normalize_image_url_def)
next
  case False
  define u1 where "u1 =
              (if startswith x ''https://www.yonex.ch''
                 then py_replace ''https://www.yonex.ch'' [] x
               else if startswith x ''http://www.yonex.ch''
                 then py_replace ''http://www.yonex.ch'' [] x
               else if startswith x ''//www.yonex.ch''
                 then py_replace ''//www.yonex.ch'' [] x
               else x)"
  define u2 where "u2 = (if \<not> startswith u1 ''/'' then ''/'' @ u1 else u1)"
  define r where "r = normalize_image_url x"
  have n: "r = py_strip (py_lower u2)"
    using False by (simp add: r_def normalize_image_url_def u1_def u2_def Let_def)
  from normalize_image_url_slash[OF False] obtain t where t: "r = CHR ''/'' # t"
    unfolding r_def by blast
  have p1: "\<not> startswith r ''https://www.yonex.ch''"
    and p2: "\<not> startswith r ''http://www.yonex.ch''"
    unfolding t by (simp_all add: startswith_def)
  have p3: "\<not> startswith r ''//www.yonex.ch''" using assms by (simp add: r_def)
  have s: "startswith r ''/''" unfolding t by (simp add: startswith_def)
  have "normalize_image_url r = py_strip (py_lower r)"
    using p1 p2 p3 s t by (simp add: normalize_image_url_def Let_def)
  also have "\<dots> = py_strip (py_strip (py_lower (py_lower u2)))"
    unfolding n by (simp add: py_lower_strip)
  also have "\<dots> = r"
    unfolding n by (simp add: py_lower_idem py_strip_idem)
  finally show ?thesis by (simp add: r_def)
qed

text \<open>
  Claim C9. The specification asks that normalising an identity twice gives the same
  string as normalising it once. The function tests for the site prefix before it
  lowers the case, so a reference whose host is written in capitals keeps its host
  in the first pass, in lower case, and loses it in the second pass: for
  \<open>//WWW.YONEX.CH/img/a.jpg\<close> one pass gives \<open>//www.yonex.ch/img/a.jpg\<close> and two
  passes give \<open>/img/a.jpg\<close>.
\<close>

theorem normalize_image_url_twice_differs:
  "normalize_image_url ''//WWW.YONEX.CH/img/a.jpg'' = ''//www.yonex.ch/img/a.jpg''
   \<and> normalize_image_url (normalize_image_url ''//WWW.YONEX.CH/img/a.jpg'') = ''/img/a.jpg''"
  by code_simp

section \<open>Results about the size analysis\<close>

lemma failure_eq_iff [simp]: "failure a = failure b \<longleftrightarrow> a = b"
  by (simp add: failure_def)















section \<open>Results about change detection\<close>

lemma set_order_okD:
  "set_order_ok order \<Longrightarrow> finite S \<Longrightarrow> set (order S) = S \<and> distinct (order S)"
  by (simp add: set_order_ok_def)


lemma order_sorted_ok: "set_order_ok order_sorted"
  by (simp add: set_order_ok_def order_sorted_def)

lemma order_reversed_ok: "set_order_ok order_reversed"
  by (simp add: set_order_ok_def order_reversed_def)

lemma map_of_keys: "k \<in> set (map fst al) \<Longrightarrow> map_of al k \<noteq> None"
  by (simp add: map_of_eq_None_iff)

lemma update_keys_present:
  "map_of al k = Some v \<Longrightarrow> map fst (AList.update k v' al) = map fst al"
  by (induction al) (auto split: if_splits)

lemma list_all2_mono_left:
  "list_all2 P xs ys \<Longrightarrow> (\<forall>x\<in>set xs. \<forall>y. P x y \<longrightarrow> Q x y) \<Longrightarrow> list_all2 Q xs ys"
  by (induction rule: list_all2_induct) auto

lemma modified_loop_Cons:
  "modified_loop order analyze dumps prev (k # ks) st =
     (case map_of (fst st) k of
        None \<Rightarrow> Inl (KeyError k)
      | Some current \<Rightarrow>
          (case map_of prev k of
             None \<Rightarrow> Inl (KeyError k)
           | Some previous \<Rightarrow>
               modified_loop order analyze dumps prev ks
                 (modified_step order analyze dumps previous current k st)))"
  by (cases st) (auto simp: modified_step_def analyze_size_changes_def Let_def
      split: option.splits)

lemma modified_step_props:
  assumes c: "map_of cur k = Some current" and p: "map_of prev k = Some previous"
  shows "\<exists>cur' ms.
      modified_step order analyze dumps previous current k (cur, mods, calls)
        = (cur', mods @ ms, calls @ common_calls prev cur k)
      \<and> map mod_image_url ms = filter (entry_changed prev cur) [k]
      \<and> (\<forall>m\<in>set ms. mod_ok order analyze dumps prev cur m)
      \<and> map fst cur' = map fst cur
      \<and> (\<forall>k'. k' \<noteq> k \<longrightarrow> map_of cur' k' = map_of cur k')
      \<and> (\<forall>k'. map_option erase_sizes (map_of cur' k') = map_option erase_sizes (map_of cur k'))"
proof -
  consider (same) "\<not> (name current \<noteq> name previous \<or> description current \<noteq> description previous
                   \<or> price current \<noteq> price previous)"
    | (other) "description current = description previous"
         "name current \<noteq> name previous \<or> price current \<noteq> price previous"
    | (desc) "description current \<noteq> description previous"
    by blast
  then show ?thesis
  proof cases
    case same
    then show ?thesis using c p
      by (simp add: modified_step_def common_calls_def entry_changed_def)
  next
    case other
    then show ?thesis using c p
      by (auto simp: modified_step_def common_calls_def entry_changed_def mod_ok_def)
  next
    case desc
    let ?sa = "fst (analyze_size_changes order analyze calls
                 (description_for_sizes previous) (description_for_sizes current))"
    let ?c' = "current\<lparr>sizes := Some (dumps (new_sizes ?sa))\<rparr>"
    let ?m = "\<lparr>mod_image_url = k, old = previous, new = ?c', size_analysis = Some ?sa\<rparr>"
    have s: "modified_step order analyze dumps previous current k (cur, mods, calls)
          = (AList.update k ?c' cur, mods @ [?m],
             calls @ [description_for_sizes previous, description_for_sizes current])"
      using desc by (simp add: modified_step_def Let_def)
    have cc: "common_calls prev cur k = [description_for_sizes previous, description_for_sizes current]"
      using desc c p by (simp add: common_calls_def)
    have ec: "entry_changed prev cur k" using desc c p by (simp add: entry_changed_def)
    have ok: "mod_ok order analyze dumps prev cur ?m"
      unfolding mod_ok_def using desc c p by auto
    have keys: "map fst (AList.update k ?c' cur) = map fst cur"
      using c by (rule update_keys_present)
    have fr: "\<forall>k'. k' \<noteq> k \<longrightarrow> map_of (AList.update k ?c' cur) k' = map_of cur k'"
      by (simp add: update_conv')
    have er: "\<forall>k'. map_option erase_sizes (map_of (AList.update k ?c' cur) k')
                 = map_option erase_sizes (map_of cur k')"
      using c by (simp add: update_conv' erase_sizes_def)
    show ?thesis
      unfolding s cc using ec ok keys fr er by auto
  qed
qed

lemma common_calls_cong:
  "map_of cur1 k = map_of cur k \<Longrightarrow> common_calls prev cur1 k = common_calls prev cur k"
  by (simp add: common_calls_def)

lemma entry_changed_cong:
  "map_of cur1 k = map_of cur k \<Longrightarrow> entry_changed prev cur1 k = entry_changed prev cur k"
  by (simp add: entry_changed_def)

lemma mod_ok_cong:
  "map_of cur1 (mod_image_url m) = map_of cur (mod_image_url m) \<Longrightarrow>
   mod_ok order analyze dumps prev cur1 m = mod_ok order analyze dumps prev cur m"
  by (simp add: mod_ok_def)

lemma modified_loop_props:
  assumes "distinct ks"
    and "\<forall>k\<in>set ks. map_of cur k \<noteq> None \<and> map_of prev k \<noteq> None"
  shows "\<exists>cur' ms.
      modified_loop order analyze dumps prev ks (cur, mods, calls)
        = Inr (cur', mods @ ms, calls @ concat (map (common_calls prev cur) ks))
      \<and> map mod_image_url ms = filter (entry_changed prev cur) ks
      \<and> (\<forall>m\<in>set ms. mod_ok order analyze dumps prev cur m)
      \<and> map fst cur' = map fst cur
      \<and> (\<forall>k'. k' \<notin> set ks \<longrightarrow> map_of cur' k' = map_of cur k')
      \<and> (\<forall>k'. map_option erase_sizes (map_of cur' k') = map_option erase_sizes (map_of cur k'))"
  using assms
proof (induction ks arbitrary: cur mods calls)
  case Nil
  then show ?case by simp
next
  case (Cons k ks)
  from Cons.prems obtain current previous where
    c: "map_of cur k = Some current" and p: "map_of prev k = Some previous"
    by auto
  from modified_step_props[OF c p, of order analyze dumps mods calls]
  obtain cur1 ms1 where
    s: "modified_step order analyze dumps previous current k (cur, mods, calls)
          = (cur1, mods @ ms1, calls @ common_calls prev cur k)"
    and k1: "map mod_image_url ms1 = filter (entry_changed prev cur) [k]"
    and ok1: "\<forall>m\<in>set ms1. mod_ok order analyze dumps prev cur m"
    and keys1: "map fst cur1 = map fst cur"
    and fr1: "\<forall>k'. k' \<noteq> k \<longrightarrow> map_of cur1 k' = map_of cur k'"
    and er1: "\<forall>k'. map_option erase_sizes (map_of cur1 k') = map_option erase_sizes (map_of cur k')"
    by blast
  have nk: "k \<notin> set ks" and d: "distinct ks" using Cons.prems by auto
  have same: "\<forall>k'\<in>set ks. map_of cur1 k' = map_of cur k'"
    using fr1 nk by auto
  have pres: "\<forall>k'\<in>set ks. map_of cur1 k' \<noteq> None \<and> map_of prev k' \<noteq> None"
    using same Cons.prems by auto
  from Cons.IH[OF d pres, of "mods @ ms1" "calls @ common_calls prev cur k"]
  obtain cur2 ms2 where
    l: "modified_loop order analyze dumps prev ks
          (cur1, mods @ ms1, calls @ common_calls prev cur k)
        = Inr (cur2, (mods @ ms1) @ ms2,
               (calls @ common_calls prev cur k) @ concat (map (common_calls prev cur1) ks))"
    and k2: "map mod_image_url ms2 = filter (entry_changed prev cur1) ks"
    and ok2: "\<forall>m\<in>set ms2. mod_ok order analyze dumps prev cur1 m"
    and keys2: "map fst cur2 = map fst cur1"
    and fr2: "\<forall>k'. k' \<notin> set ks \<longrightarrow> map_of cur2 k' = map_of cur1 k'"
    and er2: "\<forall>k'. map_option erase_sizes (map_of cur2 k') = map_option erase_sizes (map_of cur1 k')"
    by blast
  have cc: "map (common_calls prev cur1) ks = map (common_calls prev cur) ks"
    using same by (auto intro: common_calls_cong)
  have ec: "filter (entry_changed prev cur1) ks = filter (entry_changed prev cur) ks"
    using same by (auto intro!: filter_cong entry_changed_cong)
  have sub: "set (map mod_image_url ms2) \<subseteq> set ks" unfolding k2 by auto
  have ok2': "\<forall>m\<in>set ms2. mod_ok order analyze dumps prev cur m"
  proof
    fix m assume m: "m \<in> set ms2"
    then have "mod_image_url m \<in> set ks" using sub by auto
    then have "map_of cur1 (mod_image_url m) = map_of cur (mod_image_url m)"
      using same by auto
    from mod_ok_cong[OF this] ok2 m show "mod_ok order analyze dumps prev cur m" by blast
  qed
  have loop: "modified_loop order analyze dumps prev (k # ks) (cur, mods, calls)
        = Inr (cur2, mods @ (ms1 @ ms2), calls @ concat (map (common_calls prev cur) (k # ks)))"
    unfolding modified_loop_Cons using c p s l cc by simp
  have keys: "map mod_image_url (ms1 @ ms2) = filter (entry_changed prev cur) (k # ks)"
    using k1 k2 ec by simp
  have oks: "\<forall>m\<in>set (ms1 @ ms2). mod_ok order analyze dumps prev cur m"
    using ok1 ok2' by auto
  have fr: "\<forall>k'. k' \<notin> set (k # ks) \<longrightarrow> map_of cur2 k' = map_of cur k'"
    using fr1 fr2 by auto
  have er: "\<forall>k'. map_option erase_sizes (map_of cur2 k') = map_option erase_sizes (map_of cur k')"
    using er1 er2 by auto
  from loop keys oks keys1 keys2 fr er show ?case by (intro exI[of _ cur2] exI[of _ "ms1 @ ms2"]) simp
qed

lemma added_ok_cong:
  "map_of cur1 k = map_of cur k \<Longrightarrow> added_ok analyze dumps cur1 k p = added_ok analyze dumps cur k p"
  by (simp add: added_ok_def)

lemma added_calls_cong:
  "map_of cur1 k = map_of cur k \<Longrightarrow> added_calls cur1 k = added_calls cur k"
  by (simp add: added_calls_def)

lemma added_loop_props:
  assumes "distinct ks" and "\<forall>k\<in>set ks. map_of cur k \<noteq> None"
  shows "\<exists>cur' ps.
      added_loop analyze dumps ks (cur, added0, calls)
        = Inr (cur', added0 @ ps, calls @ concat (map (added_calls cur) ks))
      \<and> list_all2 (added_ok analyze dumps cur) ks ps
      \<and> map fst cur' = map fst cur
      \<and> (\<forall>k'. k' \<notin> set ks \<longrightarrow> map_of cur' k' = map_of cur k')
      \<and> (\<forall>k'. map_option erase_sizes (map_of cur' k') = map_option erase_sizes (map_of cur k'))"
  using assms
proof (induction ks arbitrary: cur added0 calls)
  case Nil
  then show ?case by simp
next
  case (Cons k ks)
  from Cons.prems obtain c where c: "map_of cur k = Some c" by auto
  define szs where "szs = (if has_original_description c
                  then dumps (analyze calls (get_original_description c))
                  else dumps no_sizes)"
  define p where "p = c\<lparr>sizes := Some szs\<rparr>"
  define cur1 where "cur1 = AList.update k p cur"
  have step: "added_loop analyze dumps (k # ks) (cur, added0, calls)
      = added_loop analyze dumps ks (cur1, added0 @ [p], calls @ added_calls cur k)"
    using c by (simp add: added_calls_def szs_def p_def cur1_def Let_def)
  have okp: "added_ok analyze dumps cur k p"
    unfolding added_ok_def using c by (auto simp: p_def szs_def)
  have keys1: "map fst cur1 = map fst cur"
    unfolding cur1_def using c by (rule update_keys_present)
  have fr1: "\<forall>k'. k' \<noteq> k \<longrightarrow> map_of cur1 k' = map_of cur k'"
    by (simp add: cur1_def update_conv')
  have er1: "\<forall>k'. map_option erase_sizes (map_of cur1 k') = map_option erase_sizes (map_of cur k')"
    using c by (simp add: cur1_def update_conv' erase_sizes_def p_def)
  have nk: "k \<notin> set ks" and d: "distinct ks" using Cons.prems by auto
  have same: "\<forall>k'\<in>set ks. map_of cur1 k' = map_of cur k'" using fr1 nk by auto
  have pres: "\<forall>k'\<in>set ks. map_of cur1 k' \<noteq> None" using same Cons.prems by auto
  from Cons.IH[OF d pres, of "added0 @ [p]" "calls @ added_calls cur k"]
  obtain cur2 ps where
    l: "added_loop analyze dumps ks (cur1, added0 @ [p], calls @ added_calls cur k)
        = Inr (cur2, (added0 @ [p]) @ ps,
               (calls @ added_calls cur k) @ concat (map (added_calls cur1) ks))"
    and ok2: "list_all2 (added_ok analyze dumps cur1) ks ps"
    and keys2: "map fst cur2 = map fst cur1"
    and fr2: "\<forall>k'. k' \<notin> set ks \<longrightarrow> map_of cur2 k' = map_of cur1 k'"
    and er2: "\<forall>k'. map_option erase_sizes (map_of cur2 k') = map_option erase_sizes (map_of cur1 k')"
    by blast
  have cc: "map (added_calls cur1) ks = map (added_calls cur) ks"
    using same by (auto intro: added_calls_cong)
  have ok2': "list_all2 (added_ok analyze dumps cur) ks ps"
  proof (rule list_all2_mono_left[OF ok2], intro ballI allI impI)
    fix x y assume "x \<in> set ks" "added_ok analyze dumps cur1 x y"
    with same added_ok_cong[of cur1 x cur analyze dumps y]
    show "added_ok analyze dumps cur x y" by simp
  qed
  have loop: "added_loop analyze dumps (k # ks) (cur, added0, calls)
        = Inr (cur2, added0 @ (p # ps), calls @ concat (map (added_calls cur) (k # ks)))"
    unfolding step l cc by simp
  have fr: "\<forall>k'. k' \<notin> set (k # ks) \<longrightarrow> map_of cur2 k' = map_of cur k'"
    using fr1 fr2 by auto
  have er: "\<forall>k'. map_option erase_sizes (map_of cur2 k') = map_option erase_sizes (map_of cur k')"
    using er1 er2 by auto
  from loop okp ok2' keys1 keys2 fr er show ?case
    by (intro exI[of _ cur2] exI[of _ "p # ps"]) simp
qed

lemma removed_list_props:
  assumes "\<forall>k\<in>set ks. map_of prev k \<noteq> None"
  shows "\<exists>ps. removed_list prev ks = Inr ps \<and> list_all2 (\<lambda>k p. map_of prev k = Some p) ks ps"
  using assms by (induction ks) auto

text \<open>
  The whole comparison: with an order that lists every element of a set once it raises
  no exception, and its result is described key by key.
\<close>

lemma detect_changes_props:
  assumes ok: "set_order_ok order"
  shows "\<exists>ch.
      detect_changes order analyze dumps prev cur
        = Inr (ch,
               concat (map (common_calls prev cur)
                         (order (set (map fst cur) \<inter> set (map fst prev))))
               @ concat (map (added_calls cur)
                         (order (set (map fst cur) - set (map fst prev)))))
      \<and> list_all2 (\<lambda>k p. map_of prev k = Some p)
            (order (set (map fst prev) - set (map fst cur))) (removed ch)
      \<and> list_all2 (added_ok analyze dumps cur)
            (order (set (map fst cur) - set (map fst prev))) (added ch)
      \<and> map mod_image_url (modified ch)
          = filter (entry_changed prev cur) (order (set (map fst cur) \<inter> set (map fst prev)))
      \<and> (\<forall>m\<in>set (modified ch). mod_ok order analyze dumps prev cur m)
      \<and> total_current ch = length cur \<and> total_previous ch = length prev
      \<and> map fst (current_products ch) = map fst cur
      \<and> (\<forall>k. map_option erase_sizes (map_of (current_products ch) k)
             = map_option erase_sizes (map_of cur k))"
proof -
  let ?C = "set (map fst cur) \<inter> set (map fst prev)"
  let ?A = "set (map fst cur) - set (map fst prev)"
  let ?R = "set (map fst prev) - set (map fst cur)"
  have C: "set (order ?C) = ?C" "distinct (order ?C)"
    and A: "set (order ?A) = ?A" "distinct (order ?A)"
    and R: "set (order ?R) = ?R" "distinct (order ?R)"
    using set_order_okD[OF ok] by simp_all
  have pc: "\<forall>k\<in>set (order ?C). map_of cur k \<noteq> None \<and> map_of prev k \<noteq> None"
    unfolding C using map_of_keys by fastforce
  from modified_loop_props[OF C(2) pc, of order analyze dumps "[]" "[]"]
  obtain cur1 ms where
    l1: "modified_loop order analyze dumps prev (order ?C) (cur, [], [])
        = Inr (cur1, ms, concat (map (common_calls prev cur) (order ?C)))"
    and k1: "map mod_image_url ms = filter (entry_changed prev cur) (order ?C)"
    and ok1: "\<forall>m\<in>set ms. mod_ok order analyze dumps prev cur m"
    and keys1: "map fst cur1 = map fst cur"
    and fr1: "\<forall>k'. k' \<notin> set (order ?C) \<longrightarrow> map_of cur1 k' = map_of cur k'"
    and er1: "\<forall>k'. map_option erase_sizes (map_of cur1 k') = map_option erase_sizes (map_of cur k')"
    by auto
  have sameA: "\<forall>k\<in>set (order ?A). map_of cur1 k = map_of cur k"
    using fr1 unfolding A C by auto
  have pa: "\<forall>k\<in>set (order ?A). map_of cur1 k \<noteq> None"
    using sameA A(1) map_of_keys[of _ cur] by auto
  from added_loop_props[OF A(2) pa, of analyze dumps "[]" "concat (map (common_calls prev cur) (order ?C))"]
  obtain cur2 ps where
    l2: "added_loop analyze dumps (order ?A)
           (cur1, [], concat (map (common_calls prev cur) (order ?C)))
        = Inr (cur2, ps, concat (map (common_calls prev cur) (order ?C))
                 @ concat (map (added_calls cur1) (order ?A)))"
    and ok2: "list_all2 (added_ok analyze dumps cur1) (order ?A) ps"
    and keys2: "map fst cur2 = map fst cur1"
    and er2: "\<forall>k'. map_option erase_sizes (map_of cur2 k') = map_option erase_sizes (map_of cur1 k')"
    by auto
  have cc: "map (added_calls cur1) (order ?A) = map (added_calls cur) (order ?A)"
    using sameA by (auto intro: added_calls_cong)
  have ok2': "list_all2 (added_ok analyze dumps cur) (order ?A) ps"
  proof (rule list_all2_mono_left[OF ok2], intro ballI allI impI)
    fix x y assume "x \<in> set (order ?A)" "added_ok analyze dumps cur1 x y"
    with sameA added_ok_cong[of cur1 x cur analyze dumps y]
    show "added_ok analyze dumps cur x y" by simp
  qed
  have pr: "\<forall>k\<in>set (order ?R). map_of prev k \<noteq> None"
    unfolding R using map_of_keys by fastforce
  from removed_list_props[OF pr] obtain rs where
    l3: "removed_list prev (order ?R) = Inr rs"
    and ok3: "list_all2 (\<lambda>k p. map_of prev k = Some p) (order ?R) rs"
    by blast
  have len: "length cur2 = length cur"
    using keys1 keys2 by (metis length_map)
  let ?ch = "\<lparr>removed = rs, added = ps, modified = ms, total_current = length cur2,
              total_previous = length prev, current_products = cur2\<rparr>"
  have d: "detect_changes order analyze dumps prev cur
        = Inr (?ch, concat (map (common_calls prev cur) (order ?C))
                 @ concat (map (added_calls cur) (order ?A)))"
  proof -
    have l2': "added_loop analyze dumps (order ?A)
           (cur1, [], concat (map (common_calls prev cur) (order ?C)))
        = Inr (cur2, ps, concat (map (common_calls prev cur) (order ?C))
                 @ concat (map (added_calls cur) (order ?A)))"
      using l2 by (simp only: cc)
    show ?thesis
      unfolding detect_changes_def Let_def using l1 l2' l3 by simp
  qed
  show ?thesis
    by (rule exI[of _ ?ch]) (use d ok3 ok2' k1 ok1 len keys1 keys2 er1 er2 in simp)
qed




text \<open>
  Claim C2. The descriptions passed to the size analysis are, in the order of the
  calls: for each common key whose normalised description differs, the old and the
  new description; then, for each added key with a non-empty original description,
  that description. No other call is made. A modification carries a size analysis if
  and only if its normalised description differs, so a common entry of which only the
  price or only the name differs leads to no call and carries none.
\<close>

theorem detect_changes_calls:
  assumes ok: "set_order_ok order"
  shows "\<exists>ch.
     detect_changes order analyze dumps prev cur
       = Inr (ch,
              concat (map (common_calls prev cur)
                        (order (set (map fst cur) \<inter> set (map fst prev))))
              @ concat (map (added_calls cur)
                        (order (set (map fst cur) - set (map fst prev)))))
     \<and> (\<forall>m\<in>set (modified ch).
           (size_analysis m = None) = (description (old m) = description (new m)))
     \<and> (\<forall>k p c. map_of prev k = Some p \<and> map_of cur k = Some c
                  \<and> description c = description p \<longrightarrow> common_calls prev cur k = [])"
proof -
  from detect_changes_props[OF ok, of analyze dumps prev cur] obtain ch where
    d: "detect_changes order analyze dumps prev cur
       = Inr (ch,
              concat (map (common_calls prev cur)
                        (order (set (map fst cur) \<inter> set (map fst prev))))
              @ concat (map (added_calls cur)
                        (order (set (map fst cur) - set (map fst prev)))))"
    and m: "\<forall>m\<in>set (modified ch). mod_ok order analyze dumps prev cur m"
    by blast
  have s: "(size_analysis m = None) = (description (old m) = description (new m))"
    if "m \<in> set (modified ch)" for m
  proof -
    from m that have "mod_ok order analyze dumps prev cur m" by blast
    then show ?thesis unfolding mod_ok_def by (auto split: if_splits)
  qed
  have c: "\<forall>k p c. map_of prev k = Some p \<and> map_of cur k = Some c
                  \<and> description c = description p \<longrightarrow> common_calls prev cur k = []"
    by (simp add: common_calls_def)
  from d s c show ?thesis by blast
qed

theorem detect_changes_calls_witness:
  "set_order_ok order_sorted
   \<and> (\<exists>ch.
        detect_changes order_sorted analyzer_example dumps_plain previous_example current_example
          = Inr (ch, [''40, 41 (=komplett)'', ''40, 41 (=nur ausverkauft in 41)''])
        \<and> map size_analysis (filter (\<lambda>m. description (old m) = description (new m))
                                (modified ch)) = [None])"
proof -
  from detect_changes_calls[OF order_sorted_ok, of analyzer_example dumps_plain
      previous_example current_example]
  obtain ch where
    d: "detect_changes order_sorted analyzer_example dumps_plain previous_example
          current_example
        = Inr (ch,
            concat (map (common_calls previous_example current_example)
                      (order_sorted (set (map fst current_example)
                                      \<inter> set (map fst previous_example))))
            @ concat (map (added_calls current_example)
                      (order_sorted (set (map fst current_example)
                                      - set (map fst previous_example)))))"
    and p: "\<forall>m\<in>set (modified ch).
           (size_analysis m = None) = (description (old m) = description (new m))"
    by blast
  have c: "concat (map (common_calls previous_example current_example)
                      (order_sorted (set (map fst current_example)
                                      \<inter> set (map fst previous_example))))
            @ concat (map (added_calls current_example)
                      (order_sorted (set (map fst current_example)
                                      - set (map fst previous_example))))
           = [''40, 41 (=komplett)'', ''40, 41 (=nur ausverkauft in 41)'']"
    by code_simp
  have "case detect_changes order_sorted analyzer_example dumps_plain previous_example
               current_example of
          Inr (ch, calls) \<Rightarrow>
            length (filter (\<lambda>m. description (old m) = description (new m)) (modified ch)) = 1
        | Inl e \<Rightarrow> False"
    by code_simp
  with d have n: "length (filter (\<lambda>m. description (old m) = description (new m))
                     (modified ch)) = 1"
    by simp
  then obtain m where
    f: "filter (\<lambda>m. description (old m) = description (new m)) (modified ch) = [m]"
    by (auto simp: length_Suc_conv)
  then have "m \<in> set (filter (\<lambda>m. description (old m) = description (new m)) (modified ch))"
    by simp
  then have "m \<in> set (modified ch) \<and> description (old m) = description (new m)"
    by simp
  with p have "size_analysis m = None" by blast
  with f d c order_sorted_ok show ?thesis by simp
qed

text \<open>
  Claim C4, as stated, fails. The program sorts nothing: the three sequences follow
  the order in which Python walks the key sets. When the set of added keys is walked
  in descending order, the entry for \<open>/img/shb65.jpg\<close> stands before the entry for
  \<open>/img/aerus.jpg\<close> in the added sequence.
\<close>

theorem added_not_sorted:
  "set_order_ok order_reversed
   \<and> ''/img/aerus.jpg'' < ''/img/shb65.jpg''
   \<and> detect_changes order_reversed analyzer_example dumps_plain [] arrivals_example
     = Inr (\<lparr>removed = [],
             added = [cushion_new\<lparr>sizes := Some (dumps_plain no_sizes)\<rparr>,
                      aerus\<lparr>sizes := Some (dumps_plain no_sizes)\<rparr>],
             modified = [],
             total_current = 2, total_previous = 0,
             current_products =
               [(''/img/aerus.jpg'', aerus\<lparr>sizes := Some (dumps_plain no_sizes)\<rparr>),
                (''/img/shb65.jpg'', cushion_new\<lparr>sizes := Some (dumps_plain no_sizes)\<rparr>)]\<rparr>,
            [])"
proof (intro conjI)
  show "set_order_ok order_reversed" by (rule order_reversed_ok)
  show "''/img/aerus.jpg'' < ''/img/shb65.jpg''" by code_simp
  show "detect_changes order_reversed analyzer_example dumps_plain [] arrivals_example
     = Inr (\<lparr>removed = [],
             added = [cushion_new\<lparr>sizes := Some (dumps_plain no_sizes)\<rparr>,
                      aerus\<lparr>sizes := Some (dumps_plain no_sizes)\<rparr>],
             modified = [],
             total_current = 2, total_previous = 0,
             current_products =
               [(''/img/aerus.jpg'', aerus\<lparr>sizes := Some (dumps_plain no_sizes)\<rparr>),
                (''/img/shb65.jpg'', cushion_new\<lparr>sizes := Some (dumps_plain no_sizes)\<rparr>)]\<rparr>,
            [])"
    by code_simp
qed

text \<open>
  Claim C4, amended. The removed sequence lists the previous entries of the removed
  keys, the added sequence the current entries of the added keys (with their sizes
  filled in), and the modified sequence the common keys with a changed field, each in
  the order in which the corresponding key set is walked. The order of the result is
  the order of the sets; no sorting by the identity string takes place.
\<close>

theorem detect_changes_order:
  assumes ok: "set_order_ok order"
  shows "\<exists>ch calls.
     detect_changes order analyze dumps prev cur = Inr (ch, calls)
     \<and> list_all2 (\<lambda>k p. map_of prev k = Some p)
          (order (set (map fst prev) - set (map fst cur))) (removed ch)
     \<and> list_all2 (\<lambda>k p. \<exists>c. map_of cur k = Some c \<and> erase_sizes p = erase_sizes c)
          (order (set (map fst cur) - set (map fst prev))) (added ch)
     \<and> map mod_image_url (modified ch)
         = filter (entry_changed prev cur) (order (set (map fst cur) \<inter> set (map fst prev)))"
proof -
  from detect_changes_props[OF ok, of analyze dumps prev cur] obtain ch calls where
    d: "detect_changes order analyze dumps prev cur = Inr (ch, calls)"
    and r: "list_all2 (\<lambda>k p. map_of prev k = Some p)
            (order (set (map fst prev) - set (map fst cur))) (removed ch)"
    and a: "list_all2 (added_ok analyze dumps cur)
            (order (set (map fst cur) - set (map fst prev))) (added ch)"
    and m: "map mod_image_url (modified ch)
          = filter (entry_changed prev cur) (order (set (map fst cur) \<inter> set (map fst prev)))"
    by blast
  have a': "list_all2 (\<lambda>k p. \<exists>c. map_of cur k = Some c \<and> erase_sizes p = erase_sizes c)
          (order (set (map fst cur) - set (map fst prev))) (added ch)"
    by (rule list_all2_mono[OF a]) (auto simp: added_ok_def erase_sizes_def split: if_splits)
  from d r a' m show ?thesis by blast
qed

theorem detect_changes_order_witness:
  "set_order_ok order_sorted
   \<and> (\<exists>ch calls.
        detect_changes order_sorted analyzer_example dumps_plain [] arrivals_example
          = Inr (ch, calls)
        \<and> list_all2 (\<lambda>k p. \<exists>c. map_of arrivals_example k = Some c
                                \<and> erase_sizes p = erase_sizes c)
             [''/img/aerus.jpg'', ''/img/shb65.jpg''] (added ch))"
proof -
  from detect_changes_order[OF order_sorted_ok, of analyzer_example dumps_plain "[]"
      arrivals_example]
  obtain ch calls where
    d: "detect_changes order_sorted analyzer_example dumps_plain [] arrivals_example
          = Inr (ch, calls)"
    and a: "list_all2 (\<lambda>k p. \<exists>c. map_of arrivals_example k = Some c
                                \<and> erase_sizes p = erase_sizes c)
             (order_sorted (set (map fst arrivals_example) - set (map fst ([]::snapshot))))
             (added ch)"
    by blast
  have "order_sorted (set (map fst arrivals_example) - set (map fst ([]::snapshot)))
          = [''/img/aerus.jpg'', ''/img/shb65.jpg'']"
    by code_simp
  with a d order_sorted_ok show ?thesis by auto
qed

lemma modified_loop_same:
  "\<forall>k\<in>set ks. map_of S k \<noteq> None \<Longrightarrow>
   modified_loop order analyze dumps S ks (S, ms, cs) = Inr (S, ms, cs)"
  by (induction ks) auto

text \<open>
  Claim C5. Comparing a snapshot with itself gives no removed, no added and no
  modified entry, makes no analysis call and leaves the snapshot as it is. And for
  any two snapshots, a key of both whose entries agree in name, normalised description
  and price is not among the modifications.
\<close>

theorem detect_changes_same:
  assumes ok: "set_order_ok order"
  shows "detect_changes order analyze dumps S S
      = Inr (\<lparr>removed = [], added = [], modified = [],
              total_current = length S, total_previous = length S,
              current_products = S\<rparr>, [])
    \<and> (\<forall>prev cur. \<exists>ch calls.
          detect_changes order analyze dumps prev cur = Inr (ch, calls)
          \<and> (\<forall>k p c. map_of prev k = Some p \<and> map_of cur k = Some c
                \<and> name c = name p \<and> description c = description p \<and> price c = price p
                \<longrightarrow> k \<notin> mod_image_url ` set (modified ch)))"
proof
  have e: "order {} = []" using set_order_okD[OF ok, of "{}"] by simp
  have "set (order (set (map fst S))) = set (map fst S)"
    using set_order_okD[OF ok, of "set (map fst S)"] by simp
  then have "\<forall>k\<in>set (order (set (map fst S))). map_of S k \<noteq> None"
    using map_of_keys[of _ S] by auto
  then have l: "modified_loop order analyze dumps S (order (set (map fst S))) (S, [], [])
        = Inr (S, [], [])"
    by (rule modified_loop_same)
  show "detect_changes order analyze dumps S S
      = Inr (\<lparr>removed = [], added = [], modified = [],
              total_current = length S, total_previous = length S,
              current_products = S\<rparr>, [])"
    unfolding detect_changes_def Let_def using e l by simp
next
  show "\<forall>prev cur. \<exists>ch calls.
          detect_changes order analyze dumps prev cur = Inr (ch, calls)
          \<and> (\<forall>k p c. map_of prev k = Some p \<and> map_of cur k = Some c
                \<and> name c = name p \<and> description c = description p \<and> price c = price p
                \<longrightarrow> k \<notin> mod_image_url ` set (modified ch))"
  proof (intro allI)
    fix prev cur
    from detect_changes_props[OF ok, of analyze dumps prev cur] obtain ch calls where
      d: "detect_changes order analyze dumps prev cur = Inr (ch, calls)"
      and m: "map mod_image_url (modified ch)
          = filter (entry_changed prev cur) (order (set (map fst cur) \<inter> set (map fst prev)))"
      by blast
    have "k \<notin> mod_image_url ` set (modified ch)"
      if "map_of prev k = Some p" "map_of cur k = Some c"
         "name c = name p" "description c = description p" "price c = price p" for k p c
    proof -
      from that have "\<not> entry_changed prev cur k" by (simp add: entry_changed_def)
      then have "k \<notin> set (map mod_image_url (modified ch))" unfolding m by simp
      then show ?thesis by simp
    qed
    with d show "\<exists>ch calls.
          detect_changes order analyze dumps prev cur = Inr (ch, calls)
          \<and> (\<forall>k p c. map_of prev k = Some p \<and> map_of cur k = Some c
                \<and> name c = name p \<and> description c = description p \<and> price c = price p
                \<longrightarrow> k \<notin> mod_image_url ` set (modified ch))"
      by blast
  qed
qed

theorem detect_changes_same_witness:
  "set_order_ok order_sorted
   \<and> detect_changes order_sorted analyzer_example dumps_plain previous_example previous_example
     = Inr (\<lparr>removed = [], added = [], modified = [],
             total_current = 2, total_previous = 2,
             current_products = previous_example\<rparr>, [])"
proof -
  have "length previous_example = 2" by (simp add: previous_example_def)
  with detect_changes_same[OF order_sorted_ok, of analyzer_example dumps_plain previous_example]
    order_sorted_ok
  show ?thesis by simp
qed

section \<open>Results about saving the snapshot\<close>

text \<open>
  In \<open>analyze_product_changes\<close> a save that fails ends in the handler: the changes
  found are dropped and the history file keeps what was written.
\<close>

lemma analyze_product_changes_failed_save:
  assumes "load previous_text = Inr previous_prods"
    and "detect_changes order analyze dumps previous_prods current_prods = Inr (ch, calls)"
    and "n < length (dump (current_products ch))"
  shows "analyze_product_changes order analyze dumps load dump (Some n) (Inr current_prods)
           (Some previous_text)
         = (no_changes, Some (take n (dump (current_products ch))))"
  using assms
  by (simp add: analyze_product_changes_def save_history_def open_for_writing_def
      write_text_def)

text \<open>
  Claim C6, as stated, fails. The history file is not written aside and then put in
  place: it is opened for writing, which empties it, and written in place. When the
  write fails after three characters the file holds those three characters, neither
  the previous snapshot nor the new one.
\<close>

theorem save_history_failure_loses_previous:
  \<open>dump_keys [(''/img/ecl.jpg'', eclipsion_old)] = ''{"/img/ecl.jpg": {}}''
   \<and> save_history dump_keys (Some 3) (Some ''{"/img/shb65.jpg": {}}'')
       [(''/img/ecl.jpg'', eclipsion_old)]
     = (Inl OSError, Some ''{"/'')\<close>
  by code_simp

text \<open>
  Claim C6, amended. Saving empties the history file and writes the new snapshot in
  place. When the write completes the file holds the new snapshot; when it fails
  after \<open>n\<close> characters the file holds the first \<open>n\<close> characters of the new text. In
  both cases nothing of the previous content is left.
\<close>

theorem save_history_in_place:
  "save_history dump limit history_file current_prods =
     (case limit of
        None \<Rightarrow> (Inr (), Some (dump current_prods))
      | Some n \<Rightarrow>
          if n < length (dump current_prods)
          then (Inl OSError, Some (take n (dump current_prods)))
          else (Inr (), Some (dump current_prods)))"
  by (simp add: save_history_def open_for_writing_def write_text_def split: option.splits)

theorem save_history_in_place_witness:
  \<open>save_history dump_keys None (Some ''{"/img/shb65.jpg": {}}'')
      [(''/img/ecl.jpg'', eclipsion_old)]
    = (Inr (), Some ''{"/img/ecl.jpg": {}}'')\<close>
proof -
  have \<open>dump_keys [(''/img/ecl.jpg'', eclipsion_old)] = ''{"/img/ecl.jpg": {}}''\<close>
    by code_simp
  with save_history_in_place[of dump_keys None \<open>Some ''{"/img/shb65.jpg": {}}''\<close>
      "[(''/img/ecl.jpg'', eclipsion_old)]"]
  show ?thesis by simp
qed

section \<open>Results about the reports\<close>















section \<open>Results about the product table\<close>

text \<open>
  With a dictionary that is not empty the rows of the category are deleted and written
  anew: the row of the example table is gone after storing one entry.
\<close>

lemma store_products_replaces_rows:
  "store_products_from_dict ''2024-02-02 09:00:00'' [(''/img/ecl.jpg'', eclipsion_old)] ''schuhe''
      shoe_tables ''schuhe''
   = Some [\<lparr>row_id = 1, row_name = ''eclipsion z'', pic_url = ''/img/ecl.jpg'',
            row_description = ''40, 41 (=komplett)'', row_price = ''chf 189.00'',
            row_sizes = pending_sizes_json, row_type = ''schuhe'',
            last_seen = ''2024-02-02 09:00:00''\<rparr>]"
  by (simp add: store_products_from_dict_def init_db_def shoe_tables_def shoe_row_def
      insert_product_def eclipsion_old_def description_for_sizes_def next_row_id_def)

text \<open>
  Claim C10. Storing an empty dictionary returns before the database is opened: every
  table, and so the rows of the category, is as it was.
\<close>

theorem store_products_from_dict_empty:
  "store_products_from_dict now [] category_name dbs = dbs"
  by (simp add: store_products_from_dict_def)

end
